theory Spec2Isabelle
  imports Complex_Main "HOL-Library.Word" "HOL-Library.Multiset" "HOL-Library.Log_Nat"
begin

section \<open>The password generator of \<^verbatim>\<open>src/App.tsx\<close>\<close>

text \<open>
  The file holds one module: the constants, the history helpers (\<^verbatim>\<open>pruneOldPasswords\<close>,
  \<^verbatim>\<open>sortByNewest\<close>, \<^verbatim>\<open>loadHistory\<close>, \<^verbatim>\<open>saveHistory\<close>), the generator
  (\<^verbatim>\<open>getRandomInt\<close>, \<^verbatim>\<open>generatePassword\<close>) and the event handlers of the component
  (\<^verbatim>\<open>handleGenerate\<close>, \<^verbatim>\<open>handleDelete\<close>, \<^verbatim>\<open>handleLengthChange\<close>).

  What the host supplies is a parameter of the model, never a fixed choice:
  \<^item> \<open>parseDate\<close> is \<^verbatim>\<open>new Date(s).getTime()\<close>: the instant in milliseconds, or \<open>None\<close>
    where JavaScript yields \<^verbatim>\<open>NaN\<close> (an invalid date);
  \<^item> \<open>now\<close> is the value of \<^verbatim>\<open>Date.now()\<close> read by one call of \<^verbatim>\<open>pruneOldPasswords\<close>;
  \<^item> \<open>stringify\<close> and \<open>parseJSON\<close> are \<^verbatim>\<open>JSON.stringify\<close> and \<^verbatim>\<open>JSON.parse\<close>;
  \<^item> the random draws are values of the type \<open>draw\<close> below.
  Instants are integers: \<^verbatim>\<open>getTime()\<close> and \<^verbatim>\<open>Date.now()\<close> are integral numbers of
  milliseconds of magnitude below \<open>2^53\<close>, so \<^verbatim>\<open>now - ts\<close> is exact on doubles.
\<close>

subsection \<open>Data\<close>

text \<open>\<^verbatim>\<open>type PasswordEntry = { id: string; value: string; createdAt: string }\<close>\<close>

record PasswordEntry =
  id_entry :: string
  value_entry :: string
  createdAt :: string

definition STORAGE_KEY :: string where
  "STORAGE_KEY = ''password-generator:history''"

definition MAX_AGE_MS :: int where
  "MAX_AGE_MS = 30 * 24 * 60 * 60 * 1000"

definition UPPERCASE :: string where
  "UPPERCASE = ''ABCDEFGHIJKLMNOPQRSTUVWXYZ''"

definition LOWERCASE :: string where
  "LOWERCASE = ''abcdefghijklmnopqrstuvwxyz''"

definition NUMBERS :: string where
  "NUMBERS = ''0123456789''"

definition SYMBOLS :: string where
  "SYMBOLS = ''!@#$%^&*()_+[]{}|;:,.<>?''"

subsection \<open>Pruning and sorting the history\<close>

text \<open>
  \<^verbatim>\<open>entries.filter\<close> with the callback of the source: an entry whose timestamp is
  \<^verbatim>\<open>NaN\<close> is dropped, any other is kept when \<^verbatim>\<open>now - ts <= MAX_AGE_MS\<close>.
\<close>

definition pruneOldPasswords ::
  "(string \<Rightarrow> int option) \<Rightarrow> int \<Rightarrow> PasswordEntry list \<Rightarrow> PasswordEntry list" where
  "pruneOldPasswords parseDate now entries =
     filter (\<lambda>entry.
        case parseDate (createdAt entry) of
          None \<Rightarrow> False
        | Some ts \<Rightarrow> now - ts \<le> MAX_AGE_MS) entries"

text \<open>
  The comparator of \<^verbatim>\<open>sortByNewest\<close>, \<^verbatim>\<open>getTime(b) - getTime(a)\<close>. It is \<^verbatim>\<open>NaN\<close>
  (\<open>None\<close>) as soon as one of the two dates is invalid. Only its sign is used by the
  sort, and the sign of the difference of two doubles holding integers is the sign of the
  exact difference.
\<close>

definition newest_first :: "(string \<Rightarrow> int option) \<Rightarrow> PasswordEntry \<Rightarrow> PasswordEntry \<Rightarrow> int option" where
  "newest_first parseDate a b =
     (case parseDate (createdAt b) of
        None \<Rightarrow> None
      | Some tb \<Rightarrow> (case parseDate (createdAt a) of None \<Rightarrow> None | Some ta \<Rightarrow> Some (tb - ta)))"

text \<open>
  \<^verbatim>\<open>Array.prototype.sort\<close> with a comparator. ECMAScript reads a \<^verbatim>\<open>NaN\<close> result as
  \<open>+0\<close>, asks for a stable sort, and fixes the result for every comparator that is
  consistent (a total preorder): the stable sorted permutation. The model is the stable
  insertion sort: \<open>place\<close> puts an element in front of the first one it does not have to
  follow. For a comparator that is not consistent ECMAScript leaves the order to the
  implementation; the model is then one of the permitted orders.
\<close>

definition goes_before :: "('a \<Rightarrow> 'a \<Rightarrow> int option) \<Rightarrow> 'a \<Rightarrow> 'a \<Rightarrow> bool" where
  "goes_before cmp x y = (case cmp x y of None \<Rightarrow> True | Some v \<Rightarrow> v \<le> 0)"

fun place :: "('a \<Rightarrow> 'a \<Rightarrow> int option) \<Rightarrow> 'a \<Rightarrow> 'a list \<Rightarrow> 'a list" where
  "place cmp x [] = [x]"
| "place cmp x (y # ys) = (if goes_before cmp x y then x # y # ys else y # place cmp x ys)"

fun array_sort :: "('a \<Rightarrow> 'a \<Rightarrow> int option) \<Rightarrow> 'a list \<Rightarrow> 'a list" where
  "array_sort cmp [] = []"
| "array_sort cmp (x # xs) = place cmp x (array_sort cmp xs)"

definition sortByNewest :: "(string \<Rightarrow> int option) \<Rightarrow> PasswordEntry list \<Rightarrow> PasswordEntry list" where
  "sortByNewest parseDate entries = array_sort (newest_first parseDate) entries"

text \<open>
  The order of the spec on dated entries: \<open>a\<close> may stand before \<open>b\<close> when both dates are
  valid and \<open>b\<close> is not the later one.
\<close>

definition not_older :: "(string \<Rightarrow> int option) \<Rightarrow> PasswordEntry \<Rightarrow> PasswordEntry \<Rightarrow> bool" where
  "not_older parseDate a b =
     (case parseDate (createdAt a) of
        None \<Rightarrow> False
      | Some ta \<Rightarrow> (case parseDate (createdAt b) of None \<Rightarrow> False | Some tb \<Rightarrow> tb \<le> ta))"

subsection \<open>Local storage\<close>

text \<open>
  \<^verbatim>\<open>localStorage\<close> is a map from keys to strings: \<^verbatim>\<open>getItem\<close> of an absent key is
  \<^verbatim>\<open>null\<close> (\<open>None\<close>), \<^verbatim>\<open>setItem\<close> overwrites. A write that the browser refuses
  (quota) throws out of \<^verbatim>\<open>saveHistory\<close> and stores nothing; the model is of a write that
  succeeds.
\<close>

type_synonym storage = "string \<rightharpoonup> string"

text \<open>
  \<^verbatim>\<open>loadHistory\<close>. \<^verbatim>\<open>!raw\<close> holds for \<^verbatim>\<open>null\<close> and for the empty string. \<open>parseJSON\<close>
  is \<^verbatim>\<open>JSON.parse(raw) as PasswordEntry[]\<close>, \<open>None\<close> where the \<^verbatim>\<open>try\<close> block throws (a
  syntax error, or a value \<^verbatim>\<open>filter\<close> and \<^verbatim>\<open>entry.createdAt\<close> cannot be applied to): the
  \<^verbatim>\<open>catch\<close> returns the empty list. The cast of the source is trusted: what parses is a
  list of entries with three string fields.
\<close>

definition loadHistory ::
  "(string \<Rightarrow> PasswordEntry list option) \<Rightarrow> (string \<Rightarrow> int option) \<Rightarrow> int \<Rightarrow> storage
     \<Rightarrow> PasswordEntry list" where
  "loadHistory parseJSON parseDate now store =
     (case store STORAGE_KEY of
        None \<Rightarrow> []
      | Some raw \<Rightarrow>
          if raw = [] then []
          else (case parseJSON raw of
                  None \<Rightarrow> []
                | Some parsed \<Rightarrow> sortByNewest parseDate (pruneOldPasswords parseDate now parsed)))"

definition saveHistory :: "(PasswordEntry list \<Rightarrow> string) \<Rightarrow> storage \<Rightarrow> PasswordEntry list \<Rightarrow> storage" where
  "saveHistory stringify store entries = store(STORAGE_KEY \<mapsto> stringify entries)"

subsection \<open>The generator\<close>

text \<open>
  The numbers of JavaScript are IEEE 754 doubles. A finite double is a rational, and the
  product of two doubles is the exact product rounded to the nearest double, ties to the
  even significand. \<open>round_double\<close> is this rounding on the rationals: the unit in the last
  place of \<open>x\<close> is \<open>2\<close> to the power \<open>e - 52\<close> for the binary exponent \<open>e\<close> of \<open>x\<close>, and not
  below \<open>-1022\<close> (the subnormal range); \<open>x\<close> becomes the nearest multiple of the unit.
  Overflow to \<^verbatim>\<open>Infinity\<close> (from \<open>2^1024\<close> on) is not modelled: the one product of the
  source is below the length of a string.
\<close>

definition round_half_even :: "rat \<Rightarrow> int" where
  "round_half_even m =
     (let f = \<lfloor>m\<rfloor>; d = m - of_int f
      in if d < 1 / 2 then f else if 1 / 2 < d then f + 1 else if even f then f else f + 1)"

text \<open>The binary exponent of a positive rational, the floor of its logarithm to base 2.\<close>

definition binary_exponent :: "rat \<Rightarrow> int" where
  "binary_exponent x =
     (case quotient_of x of
        (p, q) \<Rightarrow> let d = bitlen p - bitlen q in if 2 powi d \<le> x then d else d - 1)"

definition round_double :: "rat \<Rightarrow> rat" where
  "round_double x =
     (if x = 0 then 0
      else let u = 2 powi (max (binary_exponent \<bar>x\<bar>) (- 1022) - 52)
           in sgn x * of_int (round_half_even (\<bar>x\<bar> / u)) * u)"

text \<open>
  One call of \<^verbatim>\<open>getRandomInt\<close> reads the host once. \<open>Crypto w\<close>: \<^verbatim>\<open>window.crypto\<close> has
  \<^verbatim>\<open>getRandomValues\<close>, which stored the 32-bit word \<open>w\<close> in \<^verbatim>\<open>arr[0]\<close>.
  \<open>MathRandom r\<close>: it has not, and \<^verbatim>\<open>Math.random()\<close> returned \<open>r\<close>; the host promises a
  double with \<open>0 \<le> r < 1\<close> (\<open>draw_ok\<close>; a double is a rational that its own rounding
  leaves as it is). The test is made at every call, so every draw carries its own case.
\<close>

datatype draw = Crypto "32 word" | MathRandom rat

fun draw_ok :: "draw \<Rightarrow> bool" where
  "draw_ok (Crypto w) = True"
| "draw_ok (MathRandom r) = (0 \<le> r \<and> r < 1 \<and> round_double r = r)"

text \<open>
  \<^verbatim>\<open>arr[0] % max\<close> is \<^verbatim>\<open>NaN\<close> (\<open>None\<close>) for \<^verbatim>\<open>max = 0\<close>. The fallback is
  \<^verbatim>\<open>Math.floor(Math.random() * max)\<close>: the floor of the double product, which can lie
  on an integer that the exact product is just below. \<^verbatim>\<open>max\<close> is the length of a string,
  an integer below \<open>2^53\<close>, and so a double itself.
\<close>

fun getRandomInt :: "draw \<Rightarrow> nat \<Rightarrow> int option" where
  "getRandomInt (Crypto w) max_n = (if max_n = 0 then None else Some (int (unat w mod max_n)))"
| "getRandomInt (MathRandom r) max_n = Some \<lfloor>round_double (r * of_nat max_n)\<rfloor>"

text \<open>
  The number of values of \<^verbatim>\<open>arr[0]\<close> for which the strong path of \<^verbatim>\<open>getRandomInt(max)\<close>
  returns the index \<open>i\<close>: the weight of \<open>i\<close> when the word is uniform.
\<close>

definition index_count :: "nat \<Rightarrow> int \<Rightarrow> nat" where
  "index_count max_n i = card {w :: 32 word. getRandomInt (Crypto w) max_n = Some i}"

text \<open>
  \<^verbatim>\<open>password += all[idx]\<close>: an index outside the string (or \<^verbatim>\<open>NaN\<close>) reads
  \<^verbatim>\<open>undefined\<close>, which \<^verbatim>\<open>+=\<close> appends as the nine characters of its name.
\<close>

definition char_at :: "string \<Rightarrow> int option \<Rightarrow> string" where
  "char_at all idx =
     (case idx of
        None \<Rightarrow> ''undefined''
      | Some k \<Rightarrow> if 0 \<le> k \<and> k < int (length all) then [all ! nat k] else ''undefined'')"

text \<open>
  The parameter of \<^verbatim>\<open>generatePassword\<close>. \<^verbatim>\<open>length\<close> is a JavaScript number: the model
  takes every finite one, a rational (the length the component holds is finite, see
  \<open>handleLengthChange\<close>; with \<^verbatim>\<open>NaN\<close> the loop of the source does not run, with
  \<^verbatim>\<open>Infinity\<close> it does not end).
\<close>

record opts =
  length_opt :: rat
  useUppercase :: bool
  useLowercase :: bool
  useNumbers :: bool
  useSymbols :: bool

datatype error = Error string

text \<open>
  The loop \<^verbatim>\<open>for (let i = 0; i < opts.length; i++)\<close>; the \<open>i\<close>-th iteration makes the
  \<open>i\<close>-th call of \<^verbatim>\<open>getRandomInt\<close> of the run, \<open>draws i\<close>.
\<close>

function generate_loop :: "(nat \<Rightarrow> draw) \<Rightarrow> string \<Rightarrow> rat \<Rightarrow> nat \<Rightarrow> string \<Rightarrow> string" where
  "generate_loop draws all len i password =
     (if of_nat i < len
      then generate_loop draws all len (Suc i)
             (password @ char_at all (getRandomInt (draws i) (length all)))
      else password)"
  by pat_completeness auto
termination
proof (relation "measure (\<lambda>(draws, all, len, i, password). nat \<lceil>len\<rceil> - i)")
  show "wf (measure (\<lambda>(draws, all, len, i, password). nat \<lceil>len :: rat\<rceil> - i))"
    by simp
next
  fix draws :: "nat \<Rightarrow> draw" and all :: string and len :: rat and i :: nat and password :: string
  assume "of_nat i < len"
  then have "int i < \<lceil>len\<rceil>"
    by (simp add: less_ceiling_iff)
  then show "((draws, all, len, Suc i, password @ char_at all (getRandomInt (draws i) (length all))),
              (draws, all, len, i, password))
               \<in> measure (\<lambda>(draws, all, len, i, password). nat \<lceil>len\<rceil> - i)"
    by simp
qed

declare generate_loop.simps [simp del]

definition generatePassword :: "(nat \<Rightarrow> draw) \<Rightarrow> 'a opts_scheme \<Rightarrow> error + string" where
  "generatePassword draws opts =
     (let pools = (if useUppercase opts then [UPPERCASE] else [])
                @ (if useLowercase opts then [LOWERCASE] else [])
                @ (if useNumbers opts then [NUMBERS] else [])
                @ (if useSymbols opts then [SYMBOLS] else [])
      in if length pools = 0 then Inl (Error ''Select at least one character type.'')
         else Inr (generate_loop draws (concat pools) (length_opt opts) 0 ''''))"

text \<open>
  The alphabet in the spec's words: the class strings of the enabled flags, concatenated in
  the order uppercase, lowercase, digits, symbols. It is compared below with the
  \<^verbatim>\<open>pools.join('')\<close> of the source.
\<close>

definition canonical_alphabet :: "'a opts_scheme \<Rightarrow> string" where
  "canonical_alphabet opts =
     (if useUppercase opts then ''ABCDEFGHIJKLMNOPQRSTUVWXYZ'' else [])
   @ (if useLowercase opts then ''abcdefghijklmnopqrstuvwxyz'' else [])
   @ (if useNumbers opts then ''0123456789'' else [])
   @ (if useSymbols opts then ''!@#$%^&*()_+[]{}|;:,.<>?'' else [])"

subsection \<open>The component\<close>

text \<open>
  The state of \<^verbatim>\<open>App\<close>: the five option hooks (the fields of \<open>opts\<close>, which
  \<^verbatim>\<open>handleGenerate\<close> passes on under the same names), \<^verbatim>\<open>currentPassword\<close>, \<^verbatim>\<open>error\<close>
  and \<^verbatim>\<open>history\<close>.
\<close>

record app_state = opts +
  currentPassword :: string
  error :: "string option"
  history :: "PasswordEntry list"

text \<open>
  \<^verbatim>\<open>handleGenerate\<close>. The host gives \<open>nowIso\<close> (\<^verbatim>\<open>new Date().toISOString()\<close>),
  \<open>suffix\<close> (\<^verbatim>\<open>Math.random().toString(36).slice(2, 8)\<close>), the draws of the generator and
  the clock read by the pruning. Only \<^verbatim>\<open>generatePassword\<close> throws inside the \<^verbatim>\<open>try\<close>,
  and what it throws is an \<^verbatim>\<open>Error\<close>: the handler shows its message.
\<close>

definition handleGenerate ::
  "(string \<Rightarrow> int option) \<Rightarrow> (nat \<Rightarrow> draw) \<Rightarrow> string \<Rightarrow> string \<Rightarrow> int \<Rightarrow> app_state \<Rightarrow> app_state" where
  "handleGenerate parseDate draws nowIso suffix now s =
     (let s1 = s\<lparr>error := None\<rparr> in
      case generatePassword draws s1 of
        Inl (Error message) \<Rightarrow> s1\<lparr>error := Some message\<rparr>
      | Inr pwd \<Rightarrow>
          let newEntry = \<lparr>id_entry = nowIso @ ''-'' @ suffix, value_entry = pwd, createdAt = nowIso\<rparr>;
              next = sortByNewest parseDate (pruneOldPasswords parseDate now (newEntry # history s1))
          in s1\<lparr>currentPassword := pwd, history := next\<rparr>)"

text \<open>\<^verbatim>\<open>handleDelete\<close>: \<^verbatim>\<open>prev.filter((entry) => entry.id !== id)\<close>.\<close>

definition handleDelete :: "string \<Rightarrow> app_state \<Rightarrow> app_state" where
  "handleDelete ident s = s\<lparr>history := filter (\<lambda>entry. id_entry entry \<noteq> ident) (history s)\<rparr>"

text \<open>
  \<^verbatim>\<open>handleLengthChange\<close>. \<open>toNumber\<close> is \<^verbatim>\<open>Number(e.target.value)\<close>, a value of the
  type \<open>number\<close>. \<^verbatim>\<open>NaN\<close> returns early; otherwise the length becomes
  \<^verbatim>\<open>Math.min(64, Math.max(4, value))\<close>, written out for the two infinities.
\<close>

datatype number = NaN | NegInfinity | Num rat | PosInfinity

definition handleLengthChange :: "(string \<Rightarrow> number) \<Rightarrow> string \<Rightarrow> app_state \<Rightarrow> app_state" where
  "handleLengthChange toNumber typed s =
     (case toNumber typed of
        NaN \<Rightarrow> s
      | NegInfinity \<Rightarrow> s\<lparr>length_opt := 4\<rparr>
      | Num v \<Rightarrow> s\<lparr>length_opt := min 64 (max 4 v)\<rparr>
      | PosInfinity \<Rightarrow> s\<lparr>length_opt := 64\<rparr>)"

text \<open>
  The first render: every class on, length 16, nothing generated, and the history read
  from storage (empty where there is no \<^verbatim>\<open>window\<close>).
\<close>

definition initial_state ::
  "bool \<Rightarrow> (string \<Rightarrow> PasswordEntry list option) \<Rightarrow> (string \<Rightarrow> int option) \<Rightarrow> int \<Rightarrow> storage
     \<Rightarrow> app_state" where
  "initial_state hasWindow parseJSON parseDate now store =
     \<lparr>length_opt = 16, useUppercase = True, useLowercase = True, useNumbers = True,
      useSymbols = True, currentPassword = '''', error = None,
      history = (if hasWindow then loadHistory parseJSON parseDate now store else [])\<rparr>"

text \<open>
  The events of the page, one per handler: the four checkboxes
  (\<^verbatim>\<open>setUseUppercase(e.target.checked)\<close> and its siblings), the length input, the
  generate button (with what the host supplies to that call) and the delete button of a
  row. \<open>run\<close> handles a sequence of events in order.
\<close>

datatype event =
    SetUppercase bool
  | SetLowercase bool
  | SetNumbers bool
  | SetSymbols bool
  | LengthChange string
  | Generate "nat \<Rightarrow> draw" string string int
  | Delete string

fun dispatch ::
  "(string \<Rightarrow> int option) \<Rightarrow> (string \<Rightarrow> number) \<Rightarrow> event \<Rightarrow> app_state \<Rightarrow> app_state" where
  "dispatch parseDate toNumber (SetUppercase checked) s = s\<lparr>useUppercase := checked\<rparr>"
| "dispatch parseDate toNumber (SetLowercase checked) s = s\<lparr>useLowercase := checked\<rparr>"
| "dispatch parseDate toNumber (SetNumbers checked) s = s\<lparr>useNumbers := checked\<rparr>"
| "dispatch parseDate toNumber (SetSymbols checked) s = s\<lparr>useSymbols := checked\<rparr>"
| "dispatch parseDate toNumber (LengthChange typed) s = handleLengthChange toNumber typed s"
| "dispatch parseDate toNumber (Generate draws nowIso suffix now) s =
     handleGenerate parseDate draws nowIso suffix now s"
| "dispatch parseDate toNumber (Delete ident) s = handleDelete ident s"

fun run ::
  "(string \<Rightarrow> int option) \<Rightarrow> (string \<Rightarrow> number) \<Rightarrow> event list \<Rightarrow> app_state \<Rightarrow> app_state" where
  "run parseDate toNumber [] s = s"
| "run parseDate toNumber (ev # evs) s = run parseDate toNumber evs (dispatch parseDate toNumber ev s)"

text \<open>
  \<open>ids_fresh\<close> says of a sequence of events that every id made by a generate event,
  \<^verbatim>\<open>`${now}-${suffix}`\<close>, is the id of no entry of the history at that moment. The
  source makes no such test; the predicate states what the host has to provide.
\<close>

fun ids_fresh ::
  "(string \<Rightarrow> int option) \<Rightarrow> (string \<Rightarrow> number) \<Rightarrow> event list \<Rightarrow> app_state \<Rightarrow> bool" where
  "ids_fresh parseDate toNumber [] s = True"
| "ids_fresh parseDate toNumber (ev # evs) s =
     ((case ev of
         Generate draws nowIso suffix now \<Rightarrow> nowIso @ ''-'' @ suffix \<notin> id_entry ` set (history s)
       | _ \<Rightarrow> True)
      \<and> ids_fresh parseDate toNumber evs (dispatch parseDate toNumber ev s))"

subsection \<open>Sample values\<close>

text \<open>
  A host for the concrete instances: a date parser that knows three ISO timestamps, the
  first of March 2024 and the instants 10 and 40 days before it, and the entries made at
  those instants.
\<close>

definition sample_parseDate :: "string \<Rightarrow> int option" where
  "sample_parseDate stamp =
     (if stamp = ''2024-03-01T00:00:00.000Z'' then Some 1709251200000
      else if stamp = ''2024-02-20T00:00:00.000Z'' then Some 1708387200000
      else if stamp = ''2024-01-21T00:00:00.000Z'' then Some 1705795200000
      else None)"

definition sample_now :: int where
  "sample_now = 1709251200000"

definition entry_now :: PasswordEntry where
  "entry_now = \<lparr>id_entry = ''2024-03-01T00:00:00.000Z-k3j9x1'', value_entry = ''QWERTYUI'',
                createdAt = ''2024-03-01T00:00:00.000Z''\<rparr>"

definition entry_10_days :: PasswordEntry where
  "entry_10_days = \<lparr>id_entry = ''2024-02-20T00:00:00.000Z-a8c2zz'', value_entry = ''ASDFGHJK'',
                    createdAt = ''2024-02-20T00:00:00.000Z''\<rparr>"

definition entry_40_days :: PasswordEntry where
  "entry_40_days = \<lparr>id_entry = ''2024-01-21T00:00:00.000Z-0p4m7q'', value_entry = ''ZXCVBNMA'',
                    createdAt = ''2024-01-21T00:00:00.000Z''\<rparr>"

definition entry_undated :: PasswordEntry where
  "entry_undated = \<lparr>id_entry = ''x'', value_entry = ''LKJHGFDS'', createdAt = ''yesterday''\<rparr>"

text \<open>
  A JSON text as \<^verbatim>\<open>JSON.stringify\<close> writes it for the two entries within the month,
  and a codec that knows this one text.
\<close>

definition sample_json :: string where
  \<open>sample_json =
     ''[{"id":"2024-02-20T00:00:00.000Z-a8c2zz","value":"ASDFGHJK","createdAt":"2024-02-20T00:00:00.000Z"},''
   @ ''{"id":"2024-03-01T00:00:00.000Z-k3j9x1","value":"QWERTYUI","createdAt":"2024-03-01T00:00:00.000Z"}]''\<close>

definition sample_stringify :: "PasswordEntry list \<Rightarrow> string" where
  "sample_stringify entries = (if entries = [entry_10_days, entry_now] then sample_json else ''[]'')"

definition sample_parseJSON :: "string \<Rightarrow> PasswordEntry list option" where
  "sample_parseJSON raw =
     (if raw = sample_json then Some [entry_10_days, entry_now]
      else if raw = ''[]'' then Some []
      else None)"

definition sample_state :: app_state where
  "sample_state =
     \<lparr>length_opt = 8, useUppercase = True, useLowercase = False, useNumbers = False,
      useSymbols = False, currentPassword = '''', error = None, history = []\<rparr>"

text \<open>
  Two clicks on the generate button for which the host gave the same timestamp and the
  same suffix (and different draws), from the sample state.
\<close>

definition sample_twice :: app_state where
  "sample_twice =
     run sample_parseDate (\<lambda>typed. NaN)
       [Generate (\<lambda>i. Crypto 7) ''2024-03-01T00:00:00.000Z'' ''k3j9x1'' sample_now,
        Generate (\<lambda>i. Crypto (of_nat i)) ''2024-03-01T00:00:00.000Z'' ''k3j9x1'' sample_now]
       sample_state"

section \<open>Properties\<close>

subsection \<open>Pruning\<close>

text \<open>
  C6. Pruning is idempotent: pruning an already pruned list at the same evaluation time
  gives the same list, with no further removal.
\<close>

theorem prune_idempotent:
  "pruneOldPasswords parseDate now (pruneOldPasswords parseDate now entries)
     = pruneOldPasswords parseDate now entries"
  by (simp add: pruneOldPasswords_def)


subsection \<open>The generator\<close>

text \<open>
  The rounding: the bounds of the binary exponent, the distance of the rounded significand,
  and the two facts the generator needs. A double below 1 is at most \<open>1 - 2^-53\<close>, and
  the double product of such a number with a positive integer \<open>n\<close> is below \<open>n\<close>.
\<close>

lemma bitlen_powi_bounds:
  assumes "0 < p"
  shows "(2::rat) powi (bitlen p - 1) \<le> of_int p" and "of_int p < (2::rat) powi bitlen p"
proof -
  from bitlen_bounds [OF assms] have lo: "2 ^ nat (bitlen p - 1) \<le> p" and hi: "p < 2 ^ nat (bitlen p)"
    by simp_all
  have one: "1 \<le> bitlen p"
    using assms bitlen_eq_zero_iff [of p] bitlen_nonneg [of p] by linarith
  have "(2::rat) powi (bitlen p - 1) = 2 ^ nat (bitlen p - 1)"
    using one by (simp add: power_int_def)
  also have "\<dots> = of_int (2 ^ nat (bitlen p - 1))" by simp
  also have "\<dots> \<le> of_int p" using lo by (simp only: of_int_le_iff)
  finally show "(2::rat) powi (bitlen p - 1) \<le> of_int p" .
  have "(of_int p :: rat) < of_int (2 ^ nat (bitlen p))" using hi by (simp only: of_int_less_iff)
  also have "\<dots> = 2 ^ nat (bitlen p)" by simp
  also have "\<dots> = (2::rat) powi bitlen p"
    using one by (simp add: power_int_def)
  finally show "of_int p < (2::rat) powi bitlen p" .
qed

lemma binary_exponent_bounds:
  assumes "0 < x"
  shows "2 powi binary_exponent x \<le> x" and "x < 2 powi (binary_exponent x + 1)"
proof -
  obtain p q where pq: "quotient_of x = (p, q)" by (cases "quotient_of x")
  then have q: "0 < q" by (rule quotient_of_denom_pos)
  have x: "x = of_int p / of_int q" using pq by (rule quotient_of_div)
  with assms q have p: "0 < p" by (simp add: zero_less_divide_iff)
  have xq: "x * of_int q = of_int p" using x q by simp
  define d where "d = bitlen p - bitlen q"
  note bp = bitlen_powi_bounds [OF p] and bq = bitlen_powi_bounds [OF q]
  have pos: "0 < (2::rat) powi k" for k by (simp add: zero_less_power_int)
  have "2 powi (d - 1) * of_int q < 2 powi (d - 1) * (2::rat) powi bitlen q"
    using bq(2) pos [of "d - 1"] by simp
  also have "\<dots> = 2 powi (bitlen p - 1)"
    unfolding d_def by (simp flip: power_int_add)
  also have "\<dots> \<le> x * of_int q" using bp(1) xq by simp
  finally have lower: "2 powi (d - 1) < x" using q by simp
  have "x * of_int q < 2 powi bitlen p" using bp(2) xq by simp
  also have "\<dots> = 2 powi (d + 1) * (2::rat) powi (bitlen q - 1)"
    unfolding d_def by (simp flip: power_int_add)
  also have "\<dots> \<le> 2 powi (d + 1) * of_int q"
    using bq(1) pos [of "d + 1"] by simp
  finally have upper: "x < 2 powi (d + 1)" using q by simp
  have e: "binary_exponent x = (if 2 powi d \<le> x then d else d - 1)"
    by (simp add: binary_exponent_def pq d_def)
  show "2 powi binary_exponent x \<le> x"
    using lower by (simp add: e)
  show "x < 2 powi (binary_exponent x + 1)"
    using upper by (simp add: e)
qed

lemma round_half_even_near:
  "of_int (round_half_even m) \<le> m + 1 / 2" and "m - 1 / 2 \<le> of_int (round_half_even m)"
proof -
  have lo: "of_int \<lfloor>m\<rfloor> \<le> m" and hi: "m < of_int \<lfloor>m\<rfloor> + 1" by linarith+
  have "round_half_even m = \<lfloor>m\<rfloor> \<and> m - of_int \<lfloor>m\<rfloor> \<le> 1 / 2
      \<or> round_half_even m = \<lfloor>m\<rfloor> + 1 \<and> 1 / 2 \<le> m - of_int \<lfloor>m\<rfloor>"
    unfolding round_half_even_def Let_def by (simp only: split: if_split) linarith
  then consider
      (down) "round_half_even m = \<lfloor>m\<rfloor>" "m - of_int \<lfloor>m\<rfloor> \<le> 1 / 2"
    | (up) "round_half_even m = \<lfloor>m\<rfloor> + 1" "1 / 2 \<le> m - of_int \<lfloor>m\<rfloor>"
    by blast
  then have both: "of_int (round_half_even m) \<le> m + 1 / 2 \<and> m - 1 / 2 \<le> of_int (round_half_even m)"
  proof cases
    case down
    from down(2) lo show ?thesis
      unfolding down(1) by linarith
  next
    case up
    from up(2) hi show ?thesis
      unfolding up(1) of_int_add of_int_1 by linarith
  qed
  from both show "of_int (round_half_even m) \<le> m + 1 / 2" ..
  from both show "m - 1 / 2 \<le> of_int (round_half_even m)" ..
qed

lemma round_half_even_nonneg: "0 \<le> m \<Longrightarrow> 0 \<le> round_half_even m"
  by (auto simp add: round_half_even_def Let_def)

lemma round_double_positive:
  assumes "0 < x"
  shows "round_double x
           = of_int (round_half_even (x / 2 powi (max (binary_exponent x) (- 1022) - 52)))
             * 2 powi (max (binary_exponent x) (- 1022) - 52)"
  using assms by (simp add: round_double_def Let_def)

lemma round_double_product_in_range:
  assumes "0 \<le> r" and "r \<le> 1 - 1 / 2 ^ 53" and "0 < n"
  shows "0 \<le> round_double (r * of_nat n)" and "round_double (r * of_nat n) < of_nat n"
proof -
  let ?x = "r * of_nat n"
  have x0: "0 \<le> ?x" using assms by simp
  have xn: "?x \<le> of_nat n - of_nat n / 2 ^ 53"
  proof -
    have "?x \<le> (1 - 1 / 2 ^ 53) * of_nat n"
      using assms(2) by (rule mult_right_mono) simp
    then show ?thesis by (simp add: algebra_simps)
  qed
  show "0 \<le> round_double ?x"
  proof (cases "?x = 0")
    case True
    then show ?thesis by (simp add: round_double_def)
  next
    case False
    with x0 have xpos: "0 < ?x" by (metis order_less_le)
    define u :: rat where "u = 2 powi (max (binary_exponent ?x) (- 1022) - 52)"
    have upos: "0 < u" by (simp add: u_def zero_less_power_int)
    then have "0 \<le> ?x / u" using x0 by simp
    then have "0 \<le> round_half_even (?x / u)" by (rule round_half_even_nonneg)
    then have "0 \<le> (of_int (round_half_even (?x / u)) :: rat) * u" using upos by simp
    moreover have "round_double ?x = of_int (round_half_even (?x / u)) * u"
      unfolding u_def using xpos by (rule round_double_positive)
    ultimately show ?thesis by simp
  qed
  show "round_double ?x < of_nat n"
  proof (cases "?x = 0")
    case True
    with assms(3) show ?thesis by (simp add: round_double_def)
  next
    case False
    with x0 have xpos: "0 < ?x" by (metis order_less_le)
    define e where "e = max (binary_exponent ?x) (- 1022)"
    define u :: rat where "u = 2 powi (e - 52)"
    have upos: "0 < u" by (simp add: u_def zero_less_power_int)
    have "0 < (of_nat n :: rat) / 2 ^ 53" using assms(3) by simp
    with xn have below: "?x < of_nat n" by linarith
    have normal: "2 powi binary_exponent ?x \<le> ?x" using xpos by (rule binary_exponent_bounds)
    have tiny: "(2::rat) powi (- 1022) < 1"
      using power_int_strict_increasing [of "- 1022" 0 "2::rat"] by simp
    have one: "(1::rat) \<le> of_nat n" using assms(3) by simp
    have big: "2 powi e < (of_nat n :: rat)"
    proof (cases "binary_exponent ?x \<le> - 1022")
      case True
      then have "e = - 1022" by (simp add: e_def)
      with tiny one show ?thesis by simp
    next
      case False
      then have "e = binary_exponent ?x" by (simp add: e_def)
      with normal below show ?thesis by simp
    qed
    have "u * 2 ^ 52 = 2 powi e"
      unfolding u_def by (simp add: power_int_diff)
    with big have half: "u / 2 < of_nat n / 2 ^ 53" by (simp add: field_simps)
    have "round_double ?x = of_int (round_half_even (?x / u)) * u"
      unfolding u_def e_def using xpos by (rule round_double_positive)
    also have "\<dots> \<le> (?x / u + 1 / 2) * u"
      using round_half_even_near(1) [of "?x / u"] upos by (simp only: mult_le_cancel_right_pos)
    also have "\<dots> = ?x + u / 2" using upos by (simp add: field_simps)
    also have "\<dots> < of_nat n" using xn half by linarith
    finally show ?thesis .
  qed
qed

lemma double_below_one:
  assumes "0 \<le> r" and "r < 1" and "round_double r = r"
  shows "r \<le> 1 - 1 / 2 ^ 53"
proof (cases "r < 1 / 2")
  case True
  then show ?thesis by simp
next
  case False
  then have r: "1 / 2 \<le> r" and rpos: "0 < r" by simp_all
  note b = binary_exponent_bounds [OF rpos]
  have "binary_exponent r < 0"
  proof (rule ccontr)
    assume "\<not> binary_exponent r < 0"
    then have "(2::rat) powi 0 \<le> 2 powi binary_exponent r"
      by (intro power_int_increasing) simp_all
    with b(1) assms(2) show False by simp
  qed
  moreover have "- 2 < binary_exponent r"
  proof (rule ccontr)
    assume "\<not> - 2 < binary_exponent r"
    then have "(2::rat) powi (binary_exponent r + 1) \<le> 2 powi (- 1)"
      by (intro power_int_increasing) simp_all
    with b(2) r show False by simp
  qed
  ultimately have e: "binary_exponent r = - 1" by simp
  define k where "k = round_half_even (r / 2 powi (- 53))"
  have u: "(2::rat) powi (- 53) = 1 / 2 ^ 53" by (simp add: power_int_def field_simps)
  have rk: "r = of_int k / 2 ^ 53"
    using assms(3) round_double_positive [OF rpos] by (simp add: e k_def u)
  with assms(2) have "(of_int k :: rat) < of_int (2 ^ 53)" by (simp add: field_simps)
  then have "k < 2 ^ 53" by (simp only: of_int_less_iff)
  then have "k \<le> 2 ^ 53 - 1" by simp
  then have "(of_int k :: rat) \<le> of_int (2 ^ 53 - 1)" by (simp only: of_int_le_iff)
  with rk show ?thesis by (simp add: field_simps)
qed

lemma getRandomInt_in_range:
  assumes "draw_ok d" and "0 < n"
  shows "\<exists>k. getRandomInt d n = Some k \<and> 0 \<le> k \<and> k < int n"
proof (cases d)
  case (Crypto w)
  with assms show ?thesis by simp
next
  case (MathRandom r)
  with assms have r: "0 \<le> r" "r < 1" "round_double r = r" by simp_all
  then have top: "r \<le> 1 - 1 / 2 ^ 53" by (rule double_below_one)
  note product = round_double_product_in_range [OF r(1) top assms(2)]
  from product(1) have "0 \<le> \<lfloor>round_double (r * of_nat n)\<rfloor>" by simp
  moreover from product(2) have "\<lfloor>round_double (r * of_nat n)\<rfloor> < int n"
    by (simp add: floor_less_iff)
  ultimately show ?thesis using MathRandom by simp
qed

lemma char_at_draw:
  assumes "draw_ok d" and "all \<noteq> []"
  shows "\<exists>k. getRandomInt d (length all) = Some k \<and> 0 \<le> k \<and> k < int (length all)
           \<and> char_at all (getRandomInt d (length all)) = [all ! nat k]"
proof -
  from assms obtain k where "getRandomInt d (length all) = Some k" "0 \<le> k" "k < int (length all)"
    using getRandomInt_in_range [of d "length all"] by auto
  then show ?thesis by (simp add: char_at_def)
qed

text \<open>The loop appends one read per index from \<open>i\<close> up to the ceiling of the length.\<close>

lemma generate_loop_unfold:
  "generate_loop draws all len i password
     = password @ concat (map (\<lambda>j. char_at all (getRandomInt (draws j) (length all))) [i..<nat \<lceil>len\<rceil>])"
proof (induction draws all len i password rule: generate_loop.induct)
  case (1 draws all len i password)
  show ?case
  proof (cases "of_nat i < len")
    case True
    then have "int i < \<lceil>len\<rceil>" by (simp add: less_ceiling_iff)
    then have "i < nat \<lceil>len\<rceil>" by simp
    then have "[i..<nat \<lceil>len\<rceil>] = i # [Suc i..<nat \<lceil>len\<rceil>]" by (rule upt_conv_Cons)
    with True "1.IH" show ?thesis by (simp add: generate_loop.simps [of draws all len i])
  next
    case False
    then have "\<not> int i < \<lceil>len\<rceil>" by (simp add: less_ceiling_iff)
    then have none: "[i..<nat \<lceil>len\<rceil>] = []" by simp
    have "generate_loop draws all len i password = password"
      using False by (simp add: generate_loop.simps [of draws all len i])
    then show ?thesis unfolding none by simp
  qed
qed

lemma generatePassword_enabled:
  assumes "useUppercase opts \<or> useLowercase opts \<or> useNumbers opts \<or> useSymbols opts"
  shows "generatePassword draws opts
           = Inr (generate_loop draws (canonical_alphabet opts) (length_opt opts) 0 [])"
    and "canonical_alphabet opts \<noteq> []"
  using assms
  by (auto simp add: generatePassword_def canonical_alphabet_def UPPERCASE_def LOWERCASE_def
        NUMBERS_def SYMBOLS_def)

text \<open>With well-formed draws every read is one character of the alphabet.\<close>

lemma reads_are_characters:
  assumes "all \<noteq> []" and "\<forall>k<n. draw_ok (draws k)"
  shows "concat (map (\<lambda>j. char_at all (getRandomInt (draws j) (length all))) [0..<n])
           = map (\<lambda>j. all ! nat (the (getRandomInt (draws j) (length all)))) [0..<n]"
  using assms(2)
proof (induction n)
  case 0
  then show ?case by simp
next
  case (Suc n)
  then have "draw_ok (draws n)" by simp
  with assms(1) obtain k where "getRandomInt (draws n) (length all) = Some k"
    "char_at all (getRandomInt (draws n) (length all)) = [all ! nat k]"
    using char_at_draw [of "draws n" all] by auto
  with Suc show ?case by simp
qed

lemma generatePassword_draws:
  assumes "useUppercase opts \<or> useLowercase opts \<or> useNumbers opts \<or> useSymbols opts"
    and "\<forall>k. of_nat k < length_opt opts \<longrightarrow> draw_ok (draws k)"
  shows "generatePassword draws opts
           = Inr (map (\<lambda>j. canonical_alphabet opts
                              ! nat (the (getRandomInt (draws j) (length (canonical_alphabet opts)))))
                    [0..<nat \<lceil>length_opt opts\<rceil>])"
proof -
  have "\<forall>k<nat \<lceil>length_opt opts\<rceil>. draw_ok (draws k)"
  proof (intro allI impI)
    fix k assume "k < nat \<lceil>length_opt opts\<rceil>"
    then have "int k < \<lceil>length_opt opts\<rceil>" by simp
    then have "of_nat k < length_opt opts" by (simp add: less_ceiling_iff)
    with assms(2) show "draw_ok (draws k)" by simp
  qed
  then have "concat (map (\<lambda>j. char_at (canonical_alphabet opts)
                  (getRandomInt (draws j) (length (canonical_alphabet opts))))
               [0..<nat \<lceil>length_opt opts\<rceil>])
           = map (\<lambda>j. canonical_alphabet opts
                   ! nat (the (getRandomInt (draws j) (length (canonical_alphabet opts)))))
               [0..<nat \<lceil>length_opt opts\<rceil>]"
    by (rule reads_are_characters [OF generatePassword_enabled(2) [OF assms(1)]])
  with generatePassword_enabled(1) [OF assms(1)] show ?thesis
    by (simp add: generate_loop_unfold)
qed


text \<open>
  C1. For options with at least one class enabled and an integer length in [4, 64],
  generatePassword returns a string of exactly length characters, each a character of the
  concatenation of the enabled class constants in the order uppercase, lowercase, digits,
  symbols: the i-th character is the one at the i-th drawn index of that concatenation.
\<close>

theorem generatePassword_length_and_alphabet:
  assumes "useUppercase opts \<or> useLowercase opts \<or> useNumbers opts \<or> useSymbols opts"
    and "length_opt opts \<in> \<int>" and "4 \<le> length_opt opts" and "length_opt opts \<le> 64"
    and "\<forall>k. of_nat k < length_opt opts \<longrightarrow> draw_ok (draws k)"
  shows "\<exists>password. generatePassword draws opts = Inr password
           \<and> of_nat (length password) = length_opt opts
           \<and> set password \<subseteq> set (canonical_alphabet opts)
           \<and> (\<forall>i<length password. \<exists>k. getRandomInt (draws i) (length (canonical_alphabet opts)) = Some k
                  \<and> 0 \<le> k \<and> k < int (length (canonical_alphabet opts))
                  \<and> password ! i = canonical_alphabet opts ! nat k)"
proof -
  let ?all = "canonical_alphabet opts"
  let ?n = "nat \<lceil>length_opt opts\<rceil>"
  let ?pw = "map (\<lambda>j. ?all ! nat (the (getRandomInt (draws j) (length ?all)))) [0..<?n]"
  have gen: "generatePassword draws opts = Inr ?pw"
    using generatePassword_draws [OF assms(1) assms(5)] .
  have nonempty: "?all \<noteq> []"
    using generatePassword_enabled(2) [OF assms(1)] .
  from assms(2) obtain z :: int where z: "length_opt opts = of_int z"
    by (auto elim: Ints_cases)
  with assms(3) have "0 \<le> z" by simp
  with z have len: "of_nat (length ?pw) = length_opt opts" by simp
  have each: "\<exists>k. getRandomInt (draws i) (length ?all) = Some k \<and> 0 \<le> k \<and> k < int (length ?all)
                 \<and> ?pw ! i = ?all ! nat k" if "i < length ?pw" for i
  proof -
    from that have i: "i < ?n" by simp
    then have "int i < \<lceil>length_opt opts\<rceil>" by simp
    then have "of_nat i < length_opt opts" by (simp add: less_ceiling_iff)
    with assms(5) have "draw_ok (draws i)" by simp
    with nonempty obtain k where k: "getRandomInt (draws i) (length ?all) = Some k"
      "0 \<le> k" "k < int (length ?all)"
      using char_at_draw [of "draws i" ?all] by auto
    with i show ?thesis by simp
  qed
  have "set ?pw \<subseteq> set ?all"
  proof
    fix c assume "c \<in> set ?pw"
    then obtain i where i: "i < length ?pw" "?pw ! i = c" by (auto simp: in_set_conv_nth)
    with each [of i] obtain k where "0 \<le> k" "k < int (length ?all)" "c = ?all ! nat k" by auto
    then show "c \<in> set ?all" by simp
  qed
  with gen len each show ?thesis by blast
qed

theorem generatePassword_length_and_alphabet_witness:
  "(\<exists>password.
      generatePassword (\<lambda>i. Crypto (of_nat i))
        \<lparr>length_opt = 8, useUppercase = True, useLowercase = False, useNumbers = False,
         useSymbols = False\<rparr> = Inr password
      \<and> length password = 8
      \<and> set password \<subseteq> set ''ABCDEFGHIJKLMNOPQRSTUVWXYZ'')
   \<and> draw_ok (MathRandom (5404319552844595 / 18014398509481984))
   \<and> (\<exists>password.
        generatePassword (\<lambda>i. MathRandom (5404319552844595 / 18014398509481984))
          \<lparr>length_opt = 4, useUppercase = False, useLowercase = False, useNumbers = True,
           useSymbols = False\<rparr> = Inr password
        \<and> length password = 4
        \<and> set password \<subseteq> set ''0123456789'')
   \<and> generatePassword (\<lambda>i. MathRandom (5404319552844595 / 18014398509481984))
        \<lparr>length_opt = 4, useUppercase = False, useLowercase = False, useNumbers = True,
         useSymbols = False\<rparr> = Inr ''3333''"
proof -
  have strong: "\<exists>password.
      generatePassword (\<lambda>i. Crypto (of_nat i))
        \<lparr>length_opt = 8, useUppercase = True, useLowercase = False, useNumbers = False,
         useSymbols = False\<rparr> = Inr password
      \<and> length password = 8
      \<and> set password \<subseteq> set ''ABCDEFGHIJKLMNOPQRSTUVWXYZ''"
    using generatePassword_length_and_alphabet
      [of "\<lparr>length_opt = 8, useUppercase = True, useLowercase = False, useNumbers = False,
           useSymbols = False\<rparr>" "\<lambda>i. Crypto (of_nat i)"]
    by (auto simp add: canonical_alphabet_def)
  have double: "draw_ok (MathRandom (5404319552844595 / 18014398509481984))"
    by code_simp
  have fallback: "\<exists>password.
        generatePassword (\<lambda>i. MathRandom (5404319552844595 / 18014398509481984))
          \<lparr>length_opt = 4, useUppercase = False, useLowercase = False, useNumbers = True,
           useSymbols = False\<rparr> = Inr password
        \<and> length password = 4
        \<and> set password \<subseteq> set ''0123456789''"
    using double generatePassword_length_and_alphabet
      [of "\<lparr>length_opt = 4, useUppercase = False, useLowercase = False, useNumbers = True,
           useSymbols = False\<rparr>" "\<lambda>i. MathRandom (5404319552844595 / 18014398509481984)"]
    by (auto simp add: canonical_alphabet_def)
  have threes: "generatePassword (\<lambda>i. MathRandom (5404319552844595 / 18014398509481984))
        \<lparr>length_opt = 4, useUppercase = False, useLowercase = False, useNumbers = True,
         useSymbols = False\<rparr> = Inr ''3333''"
    by code_simp
  from strong double fallback threes show ?thesis by blast
qed

lemma generatePassword_ignores_error:
  "generatePassword draws (s\<lparr>error := e\<rparr>) = generatePassword draws s"
  by (simp add: generatePassword_def)

text \<open>
  C2. With the four class flags false and any length, generatePassword fails with the
  validation error and produces no password; handleGenerate, called in a state whose four
  flags are false, then leaves the history and the current password as they were and
  shows the message of the error.
\<close>

theorem no_class_is_validation_error:
  shows "(\<not> useUppercase opts \<and> \<not> useLowercase opts \<and> \<not> useNumbers opts \<and> \<not> useSymbols opts
            \<longrightarrow> generatePassword draws opts = Inl (Error ''Select at least one character type.''))
       \<and> (\<not> useUppercase s \<and> \<not> useLowercase s \<and> \<not> useNumbers s \<and> \<not> useSymbols s
            \<longrightarrow> history (handleGenerate parseDate draws nowIso suffix now s) = history s
              \<and> currentPassword (handleGenerate parseDate draws nowIso suffix now s)
                  = currentPassword s
              \<and> error (handleGenerate parseDate draws nowIso suffix now s)
                  = Some ''Select at least one character type.'')"
  by (simp add: generatePassword_def handleGenerate_def)

theorem no_class_is_validation_error_witness:
  "generatePassword (\<lambda>i. Crypto 7)
       \<lparr>length_opt = 12, useUppercase = False, useLowercase = False, useNumbers = False,
        useSymbols = False\<rparr>
     = Inl (Error ''Select at least one character type.'')
   \<and> history (handleGenerate sample_parseDate (\<lambda>i. Crypto 7) ''2024-03-01T00:00:00.000Z''
               ''k3j9x1'' sample_now
               (sample_state\<lparr>useUppercase := False, currentPassword := ''ABCDEFGH'',
                              history := [entry_10_days]\<rparr>))
       = [entry_10_days]
   \<and> currentPassword (handleGenerate sample_parseDate (\<lambda>i. Crypto 7) ''2024-03-01T00:00:00.000Z''
               ''k3j9x1'' sample_now
               (sample_state\<lparr>useUppercase := False, currentPassword := ''ABCDEFGH'',
                              history := [entry_10_days]\<rparr>))
       = ''ABCDEFGH''"
  using no_class_is_validation_error
    [of "\<lparr>length_opt = 12, useUppercase = False, useLowercase = False, useNumbers = False,
          useSymbols = False\<rparr>"
        "\<lambda>i. Crypto 7"
        "sample_state\<lparr>useUppercase := False, currentPassword := ''ABCDEFGH'',
                       history := [entry_10_days]\<rparr>"
        sample_parseDate "''2024-03-01T00:00:00.000Z''" "''k3j9x1''" sample_now]
  by (simp add: sample_state_def)




subsection \<open>The history\<close>

lemma mset_place: "mset (place cmp x ys) = add_mset x (mset ys)"
  by (induction ys) simp_all

lemma mset_array_sort: "mset (array_sort cmp xs) = mset xs"
  by (induction xs) (simp_all add: mset_place)

lemma set_place: "set (place cmp x ys) = insert x (set ys)"
  using mset_place [of cmp x ys, THEN arg_cong, of set_mset] by simp

lemma set_array_sort: "set (array_sort cmp xs) = set xs"
  using mset_array_sort [of cmp xs, THEN arg_cong, of set_mset] by simp

lemma not_older_trans:
  "not_older parseDate a b \<Longrightarrow> not_older parseDate b c \<Longrightarrow> not_older parseDate a c"
  by (auto simp add: not_older_def split: option.splits)

lemma goes_before_dated:
  assumes "parseDate (createdAt a) \<noteq> None" and "parseDate (createdAt b) \<noteq> None"
  shows "goes_before (newest_first parseDate) a b \<longleftrightarrow> not_older parseDate a b"
    and "\<not> goes_before (newest_first parseDate) a b \<Longrightarrow> not_older parseDate b a"
  using assms by (auto simp add: goes_before_def newest_first_def not_older_def split: option.splits)

text \<open>Placing a dated entry into a list of dated entries keeps the list newest first.\<close>

lemma sorted_place:
  assumes "parseDate (createdAt x) \<noteq> None"
    and "\<forall>e\<in>set ys. parseDate (createdAt e) \<noteq> None"
    and "sorted_wrt (not_older parseDate) ys"
  shows "sorted_wrt (not_older parseDate) (place (newest_first parseDate) x ys)"
  using assms(2,3)
proof (induction ys)
  case Nil
  then show ?case by simp
next
  case (Cons y ys)
  have y: "parseDate (createdAt y) \<noteq> None" using Cons.prems(1) by simp
  show ?case
  proof (cases "goes_before (newest_first parseDate) x y")
    case True
    then have xy: "not_older parseDate x y"
      using goes_before_dated(1) [OF assms(1) y] by simp
    have "not_older parseDate x z" if "z \<in> set ys" for z
    proof -
      from that Cons.prems(2) have "not_older parseDate y z" by simp
      with xy show ?thesis by (rule not_older_trans)
    qed
    with True xy Cons.prems(2) show ?thesis by simp
  next
    case False
    then have yx: "not_older parseDate y x"
      using goes_before_dated(2) [OF assms(1) y] by simp
    have "sorted_wrt (not_older parseDate) (place (newest_first parseDate) x ys)"
      using Cons.IH Cons.prems by simp
    with False yx Cons.prems(2) show ?thesis by (simp add: set_place)
  qed
qed

lemma sorted_array_sort:
  assumes "\<forall>e\<in>set xs. parseDate (createdAt e) \<noteq> None"
  shows "sorted_wrt (not_older parseDate) (array_sort (newest_first parseDate) xs)"
  using assms
proof (induction xs)
  case Nil
  then show ?case by simp
next
  case (Cons x xs)
  then show ?case by (simp add: sorted_place set_array_sort)
qed

lemma pruned_is_dated:
  "\<forall>e\<in>set (pruneOldPasswords parseDate now entries). parseDate (createdAt e) \<noteq> None"
  by (auto simp add: pruneOldPasswords_def split: option.splits)

lemma prune_then_sort_sorted:
  "sorted_wrt (not_older parseDate) (sortByNewest parseDate (pruneOldPasswords parseDate now entries))"
  unfolding sortByNewest_def by (rule sorted_array_sort [OF pruned_is_dated])

lemma loadHistory_sorted:
  "sorted_wrt (not_older parseDate) (loadHistory parseJSON parseDate now store)"
  by (simp add: loadHistory_def prune_then_sort_sorted split: option.splits)

lemma handleGenerate_history:
  assumes "useUppercase s \<or> useLowercase s \<or> useNumbers s \<or> useSymbols s"
  shows "\<exists>pwd. generatePassword draws s = Inr pwd
          \<and> history (handleGenerate parseDate draws nowIso suffix now s)
            = sortByNewest parseDate (pruneOldPasswords parseDate now
                (\<lparr>id_entry = nowIso @ ''-'' @ suffix, value_entry = pwd, createdAt = nowIso\<rparr>
                   # history s))"
  using generatePassword_enabled(1) [OF assms, of draws]
  by (simp add: handleGenerate_def generatePassword_ignores_error)

lemma later_comes_first:
  assumes "sorted_wrt (not_older parseDate) r" and "i < length r" and "j < length r"
    and "parseDate (createdAt (r ! i)) = Some ta" and "parseDate (createdAt (r ! j)) = Some tb"
    and "tb < ta"
  shows "i < j"
proof (rule ccontr)
  assume "\<not> i < j"
  then consider "j = i" | "j < i" by linarith
  then show False
  proof cases
    case 1
    with assms(4,5,6) show False by simp
  next
    case 2
    with assms(1,2) have "not_older parseDate (r ! j) (r ! i)"
      by (simp add: sorted_wrt_iff_nth_less)
    with assms(4,5,6) show False by (simp add: not_older_def)
  qed
qed

text \<open>
  C4. In the collection that loadHistory returns, and in the history that handleGenerate
  sets when it appends an entry (a class is enabled), an entry whose createdAt parses to a
  strictly later instant than that of another stands before it: the collection is sorted
  newest first by parsed timestamp.
\<close>

theorem history_is_newest_first:
  assumes "r = loadHistory parseJSON parseDate now store
         \<or> (useUppercase s \<or> useLowercase s \<or> useNumbers s \<or> useSymbols s)
           \<and> r = history (handleGenerate parseDate draws nowIso suffix now s)"
  shows "sorted_wrt (not_older parseDate) r
       \<and> (\<forall>i j ta tb. i < length r \<and> j < length r
             \<and> parseDate (createdAt (r ! i)) = Some ta \<and> parseDate (createdAt (r ! j)) = Some tb
             \<and> tb < ta \<longrightarrow> i < j)"
proof -
  from assms consider
      (load) "r = loadHistory parseJSON parseDate now store"
    | (append) "useUppercase s \<or> useLowercase s \<or> useNumbers s \<or> useSymbols s"
        "r = history (handleGenerate parseDate draws nowIso suffix now s)"
    by blast
  then have sorted: "sorted_wrt (not_older parseDate) r"
  proof cases
    case load
    then show ?thesis by (simp add: loadHistory_sorted)
  next
    case append
    from handleGenerate_history [OF append(1), of draws parseDate nowIso suffix now] append(2)
    show ?thesis by (auto simp add: prune_then_sort_sorted)
  qed
  then show ?thesis
    using later_comes_first [of parseDate r] by blast
qed

theorem history_is_newest_first_witness:
  "loadHistory sample_parseJSON sample_parseDate sample_now [STORAGE_KEY \<mapsto> sample_json]
     = [entry_now, entry_10_days]
   \<and> sorted_wrt (not_older sample_parseDate) [entry_now, entry_10_days]
   \<and> sample_parseDate (createdAt entry_now) = Some 1709251200000
   \<and> sample_parseDate (createdAt entry_10_days) = Some 1708387200000"
proof -
  have loaded: "loadHistory sample_parseJSON sample_parseDate sample_now [STORAGE_KEY \<mapsto> sample_json]
     = [entry_now, entry_10_days]"
    by code_simp
  have "sorted_wrt (not_older sample_parseDate) [entry_now, entry_10_days]"
    using history_is_newest_first [of "[entry_now, entry_10_days]" sample_parseJSON
        sample_parseDate sample_now "[STORAGE_KEY \<mapsto> sample_json]"] loaded
    by simp
  moreover have "sample_parseDate (createdAt entry_now) = Some 1709251200000"
    and "sample_parseDate (createdAt entry_10_days) = Some 1708387200000"
    by (simp_all add: sample_parseDate_def entry_now_def entry_10_days_def)
  ultimately show ?thesis using loaded by simp
qed


text \<open>
  C3. Pruning keeps an entry if and only if its createdAt parses to a valid instant ts
  with now - ts at most 30 days, that is 30 * 24 * 60 * 60 * 1000 ms, the bound included;
  the entries kept stay in their order. An entry whose createdAt does not parse is
  dropped, one that is 30 days and 1 second old is dropped, one that is 29 days and 23
  hours old is kept, and so is one that is 30 days old to the millisecond.
\<close>

theorem prune_keeps_exactly_the_recent:
  shows "pruneOldPasswords parseDate now entries
           = filter (\<lambda>e. \<exists>ts. parseDate (createdAt e) = Some ts
                            \<and> now - ts \<le> 30 * 24 * 60 * 60 * 1000) entries
       \<and> (e \<in> set (pruneOldPasswords parseDate now entries)
            \<longleftrightarrow> e \<in> set entries
                \<and> (\<exists>ts. parseDate (createdAt e) = Some ts \<and> now - ts \<le> 30 * 24 * 60 * 60 * 1000))
       \<and> (parseDate (createdAt e) = None
            \<longrightarrow> e \<notin> set (pruneOldPasswords parseDate now entries))
       \<and> (parseDate (createdAt e) = Some (now - (30 * 24 * 60 * 60 * 1000 + 1000))
            \<longrightarrow> e \<notin> set (pruneOldPasswords parseDate now entries))
       \<and> (e \<in> set entries \<and> parseDate (createdAt e) = Some (now - (29 * 24 + 23) * 60 * 60 * 1000)
            \<longrightarrow> e \<in> set (pruneOldPasswords parseDate now entries))
       \<and> (e \<in> set entries \<and> parseDate (createdAt e) = Some (now - 30 * 24 * 60 * 60 * 1000)
            \<longrightarrow> e \<in> set (pruneOldPasswords parseDate now entries))"
proof -
  have same: "(case parseDate (createdAt x) of None \<Rightarrow> False | Some ts \<Rightarrow> now - ts \<le> MAX_AGE_MS)
          \<longleftrightarrow> (\<exists>ts. parseDate (createdAt x) = Some ts \<and> now - ts \<le> 30 * 24 * 60 * 60 * 1000)"
    for x
    by (cases "parseDate (createdAt x)") (simp_all add: MAX_AGE_MS_def)
  have first: "pruneOldPasswords parseDate now entries
           = filter (\<lambda>e. \<exists>ts. parseDate (createdAt e) = Some ts
                            \<and> now - ts \<le> 30 * 24 * 60 * 60 * 1000) entries"
    unfolding pruneOldPasswords_def same ..
  show ?thesis
    unfolding first by auto
qed

theorem prune_keeps_exactly_the_recent_witness:
  "pruneOldPasswords sample_parseDate sample_now
       [entry_10_days, entry_undated, entry_40_days, entry_now]
     = [entry_10_days, entry_now]
   \<and> entry_undated \<notin> set (pruneOldPasswords sample_parseDate sample_now
         [entry_10_days, entry_undated, entry_40_days, entry_now])
   \<and> entry_now \<notin> set (pruneOldPasswords sample_parseDate (1709251200000 + 2592001000) [entry_now])
   \<and> entry_now \<in> set (pruneOldPasswords sample_parseDate (1709251200000 + 2588400000) [entry_now])
   \<and> entry_now \<in> set (pruneOldPasswords sample_parseDate (1709251200000 + 2592000000) [entry_now])"
proof -
  have undated: "sample_parseDate (createdAt entry_undated) = None"
    and dated: "sample_parseDate (createdAt entry_now) = Some 1709251200000"
    by (simp_all add: sample_parseDate_def entry_undated_def entry_now_def)
  have "pruneOldPasswords sample_parseDate sample_now
       [entry_10_days, entry_undated, entry_40_days, entry_now]
     = [entry_10_days, entry_now]"
    by code_simp
  moreover have "entry_undated \<notin> set (pruneOldPasswords sample_parseDate sample_now
         [entry_10_days, entry_undated, entry_40_days, entry_now])"
    using undated prune_keeps_exactly_the_recent [of sample_parseDate sample_now
        "[entry_10_days, entry_undated, entry_40_days, entry_now]" entry_undated]
    by blast
  moreover have "entry_now \<notin> set (pruneOldPasswords sample_parseDate (1709251200000 + 2592001000)
        [entry_now])"
    using dated prune_keeps_exactly_the_recent [of sample_parseDate "1709251200000 + 2592001000"
        "[entry_now]" entry_now]
    by simp
  moreover have "entry_now \<in> set (pruneOldPasswords sample_parseDate (1709251200000 + 2588400000)
        [entry_now])"
    using dated prune_keeps_exactly_the_recent [of sample_parseDate "1709251200000 + 2588400000"
        "[entry_now]" entry_now]
    by simp
  moreover have "entry_now \<in> set (pruneOldPasswords sample_parseDate (1709251200000 + 2592000000)
        [entry_now])"
    using dated prune_keeps_exactly_the_recent [of sample_parseDate "1709251200000 + 2592000000"
        "[entry_now]" entry_now]
    by simp
  ultimately show ?thesis by blast
qed

text \<open>
  C5. Persisting a collection with saveHistory and reading it back with loadHistory gives
  a collection with the entries of the pruned form of what was persisted, each as often as
  there, in some order; in particular the two are equal as sets. JSON.parse is taken to
  give back the entries JSON.stringify wrote, from a text that is not empty, and the
  pruning of the comparison reads the clock that loadHistory reads.
\<close>

theorem save_then_load_is_pruned:
  assumes "parseJSON (stringify entries) = Some entries" and "stringify entries \<noteq> []"
  shows "mset (loadHistory parseJSON parseDate now (saveHistory stringify store entries))
           = mset (pruneOldPasswords parseDate now entries)
       \<and> set (loadHistory parseJSON parseDate now (saveHistory stringify store entries))
           = set (pruneOldPasswords parseDate now entries)"
  using assms
  by (simp add: loadHistory_def saveHistory_def sortByNewest_def mset_array_sort set_array_sort)

theorem save_then_load_is_pruned_witness:
  "sample_parseJSON (sample_stringify [entry_10_days, entry_now]) = Some [entry_10_days, entry_now]
   \<and> sample_stringify [entry_10_days, entry_now] \<noteq> []
   \<and> set (loadHistory sample_parseJSON sample_parseDate sample_now
            (saveHistory sample_stringify Map.empty [entry_10_days, entry_now]))
       = set (pruneOldPasswords sample_parseDate sample_now [entry_10_days, entry_now])"
proof -
  have roundtrip: "sample_parseJSON (sample_stringify [entry_10_days, entry_now])
      = Some [entry_10_days, entry_now]"
    by (simp add: sample_parseJSON_def sample_stringify_def)
  have nonempty: "sample_stringify [entry_10_days, entry_now] \<noteq> []"
    by (simp add: sample_stringify_def sample_json_def)
  from save_then_load_is_pruned [of sample_parseJSON sample_stringify "[entry_10_days, entry_now]"
      sample_parseDate sample_now Map.empty]
  show ?thesis using roundtrip nonempty by blast
qed


subsection \<open>The weight of an index\<close>

text \<open>Among the numbers below \<open>N\<close>, the residue \<open>i\<close> modulo \<open>m\<close> is taken by
  \<open>N div m\<close> of them, and by one more when \<open>i\<close> is below \<open>N mod m\<close>.\<close>

lemma card_residue:
  assumes "i < m"
  shows "card {n. n < N \<and> n mod m = i} = N div m + (if i < N mod m then 1 else 0)"
proof (induction N)
  case 0
  then show ?case by simp
next
  case (Suc N)
  have fin: "finite {n. n < N \<and> n mod m = i}" by simp
  have fresh: "N \<notin> {n. n < N \<and> n mod m = i}" by simp
  have split: "{n. n < Suc N \<and> n mod m = i}
      = (if N mod m = i then insert N {n. n < N \<and> n mod m = i} else {n. n < N \<and> n mod m = i})"
    by (auto simp add: less_Suc_eq)
  have step: "card {n. n < Suc N \<and> n mod m = i}
      = N div m + (if i < N mod m then 1 else 0) + (if N mod m = i then 1 else 0)"
    unfolding split using Suc.IH fin fresh by simp
  have m: "0 < m" using assms by simp
  show ?case
  proof (cases "Suc (N mod m) = m")
    case True
    then have "Suc N mod m = 0" and "Suc N div m = Suc (N div m)"
      by (simp_all add: mod_Suc div_Suc)
    with True step assms show ?thesis by auto
  next
    case False
    then have "Suc N mod m = Suc (N mod m)" and "Suc N div m = N div m"
      by (simp_all add: mod_Suc div_Suc)
    with step show ?thesis by auto
  qed
qed

lemma card_word_residue:
  assumes "i < m"
  shows "card {w :: 32 word. unat w mod m = i} = 4294967296 div m + (if i < 4294967296 mod m then 1 else 0)"
proof -
  have image: "unat ` {w :: 32 word. unat w mod m = i} = {n. n < 4294967296 \<and> n mod m = i}"
  proof (intro set_eqI iffI)
    fix n assume "n \<in> unat ` {w :: 32 word. unat w mod m = i}"
    then obtain w :: "32 word" where w: "n = unat w" "unat w mod m = i" by auto
    have "unat w < 2 ^ LENGTH(32)" by (rule unsigned_less)
    with w show "n \<in> {n. n < 4294967296 \<and> n mod m = i}" by simp
  next
    fix n assume "n \<in> {n. n < 4294967296 \<and> n mod m = i}"
    then have n: "n < 4294967296" "n mod m = i" by simp_all
    then have "unat (word_of_nat n :: 32 word) = n"
      by (simp add: unat_of_nat)
    with n show "n \<in> unat ` {w :: 32 word. unat w mod m = i}"
      by (intro image_eqI [where x = "word_of_nat n"]) simp_all
  qed
  have "inj_on unat {w :: 32 word. unat w mod m = i}"
    by (rule inj_on_subset [OF inj_unsigned subset_UNIV])
  then have "card (unat ` {w :: 32 word. unat w mod m = i}) = card {w :: 32 word. unat w mod m = i}"
    by (rule card_image)
  with image show ?thesis
    using card_residue [OF assms, of 4294967296] by simp
qed

lemma index_count_formula:
  assumes "0 < max_n" and "0 \<le> i" and "i < int max_n"
  shows "index_count max_n i
           = 4294967296 div max_n + (if nat i < 4294967296 mod max_n then 1 else 0)"
proof -
  have "{w :: 32 word. getRandomInt (Crypto w) max_n = Some i} = {w. unat w mod max_n = nat i}"
    using assms by auto
  then show ?thesis
    unfolding index_count_def using card_word_residue [of "nat i" max_n] assms by simp
qed

lemma alphabet_sizes:
  assumes "useUppercase opts \<or> useLowercase opts \<or> useNumbers opts \<or> useSymbols opts"
  shows "length (canonical_alphabet opts) \<in> {10, 24, 26, 34, 36, 50, 52, 60, 62, 76, 86}"
  using assms by (auto simp add: canonical_alphabet_def)

text \<open>
  C9, the claim as stated fails. With the digits alone the alphabet has 10 characters, and
  of the \<open>2^32\<close> words 429496730 give the index 0 and 429496729 the index 9.
\<close>

theorem modulo_draw_not_uniform:
  "index_count (length NUMBERS) 0 = 429496730
   \<and> index_count (length NUMBERS) 9 = 429496729
   \<and> index_count (length NUMBERS) 0 \<noteq> index_count (length NUMBERS) 9"
  by (simp add: index_count_formula NUMBERS_def)

text \<open>
  C9, amended. When the strong random source is available the draw is the map
  w -> w % max on a uniform 32-bit word, without rejection. An index i in [0, max) is the
  image of floor(2^32 / max) words, and of one more when i < 2^32 mod max: the weights of
  two indices differ by at most one. For every alphabet size that can arise (10 to 86, none
  a power of two) the index 0 has one word more than the last index, so the draw is close
  to uniform and not uniform.
\<close>

theorem modulo_draw_weights:
  shows "(0 < max_n \<and> 0 \<le> i \<and> i < int max_n
            \<longrightarrow> index_count max_n i
                  = 4294967296 div max_n + (if nat i < 4294967296 mod max_n then 1 else 0))
       \<and> (useUppercase opts \<or> useLowercase opts \<or> useNumbers opts \<or> useSymbols opts
            \<longrightarrow> index_count (length (canonical_alphabet opts)) 0
                  = index_count (length (canonical_alphabet opts))
                      (int (length (canonical_alphabet opts)) - 1) + 1)"
proof (intro conjI impI)
  assume "0 < max_n \<and> 0 \<le> i \<and> i < int max_n"
  then show "index_count max_n i
      = 4294967296 div max_n + (if nat i < 4294967296 mod max_n then 1 else 0)"
    by (simp add: index_count_formula)
next
  assume "useUppercase opts \<or> useLowercase opts \<or> useNumbers opts \<or> useSymbols opts"
  then have "length (canonical_alphabet opts) \<in> {10, 24, 26, 34, 36, 50, 52, 60, 62, 76, 86}"
    by (rule alphabet_sizes)
  then show "index_count (length (canonical_alphabet opts)) 0
      = index_count (length (canonical_alphabet opts)) (int (length (canonical_alphabet opts)) - 1) + 1"
    by (elim insertE emptyE) (simp_all add: index_count_formula)
qed

theorem modulo_draw_weights_witness:
  "index_count 86 85 = 49941480 \<and> index_count 86 0 = 49941481"
  using modulo_draw_weights [of 86 85 sample_state] modulo_draw_weights [of 86 0 sample_state]
  by simp


subsection \<open>Deleting, and the ids of the history\<close>

lemma one_match_when_distinct:
  assumes "distinct (map f xs)" and "x \<in> f ` set xs"
  shows "length (filter (\<lambda>e. f e = x) xs) = 1"
  using assms
proof (induction xs)
  case Nil
  then show ?case by simp
next
  case (Cons y ys)
  show ?case
  proof (cases "f y = x")
    case True
    with Cons.prems(1) have "x \<notin> f ` set ys" by simp
    then have "\<forall>e\<in>set ys. f e \<noteq> x" by blast
    then have "filter (\<lambda>e. f e = x) ys = []" by (simp add: filter_empty_conv)
    with True show ?thesis by simp
  next
    case False
    with Cons show ?thesis by auto
  qed
qed

text \<open>
  C7, the claim as stated fails. After the two clicks of \<open>sample_twice\<close> the history has
  two entries with one id; deleting that id leaves no entry, not one.
\<close>

theorem delete_with_repeated_id:
  "length (history sample_twice) = 2
   \<and> map id_entry (history sample_twice)
       = [''2024-03-01T00:00:00.000Z-k3j9x1'', ''2024-03-01T00:00:00.000Z-k3j9x1'']
   \<and> length (history (handleDelete ''2024-03-01T00:00:00.000Z-k3j9x1'' sample_twice)) = 0"
  by code_simp

text \<open>
  C7, amended. handleDelete returns the collection without the entries whose id is the
  given one, the others as they were and in their order, and changes nothing else of the
  state: no entry of the result has that id, and the size falls by the number of entries
  that had it. That is n - 1 for a collection of size n with pairwise distinct ids that
  contains the id; a collection without the id comes back as it was.
\<close>

theorem handleDelete_removes_the_id:
  shows "history (handleDelete ident s) = filter (\<lambda>e. id_entry e \<noteq> ident) (history s)
       \<and> handleDelete ident s
           = s\<lparr>history := filter (\<lambda>e. id_entry e \<noteq> ident) (history s)\<rparr>
       \<and> (\<forall>e\<in>set (history (handleDelete ident s)). id_entry e \<noteq> ident)
       \<and> length (history (handleDelete ident s))
           = length (history s) - length (filter (\<lambda>e. id_entry e = ident) (history s))
       \<and> (distinct (map id_entry (history s)) \<and> ident \<in> id_entry ` set (history s)
            \<longrightarrow> length (history (handleDelete ident s)) = length (history s) - 1)
       \<and> (ident \<notin> id_entry ` set (history s) \<longrightarrow> handleDelete ident s = s)"
proof -
  have rest: "history (handleDelete ident s) = filter (\<lambda>e. id_entry e \<noteq> ident) (history s)"
    by (simp add: handleDelete_def)
  have frame: "handleDelete ident s
      = s\<lparr>history := filter (\<lambda>e. id_entry e \<noteq> ident) (history s)\<rparr>"
    by (simp add: handleDelete_def)
  have total: "length (filter (\<lambda>e. id_entry e = ident) (history s))
      + length (filter (\<lambda>e. id_entry e \<noteq> ident) (history s)) = length (history s)"
    by (rule sum_length_filter_compl)
  then have size: "length (history (handleDelete ident s))
      = length (history s) - length (filter (\<lambda>e. id_entry e = ident) (history s))"
    by (simp add: handleDelete_def)
  have one: "length (history (handleDelete ident s)) = length (history s) - 1"
    if "distinct (map id_entry (history s))" and "ident \<in> id_entry ` set (history s)"
    using size one_match_when_distinct [OF that] by simp
  have same: "handleDelete ident s = s" if "ident \<notin> id_entry ` set (history s)"
  proof -
    from that have "\<forall>e\<in>set (history s). id_entry e \<noteq> ident" by auto
    then have "filter (\<lambda>e. id_entry e \<noteq> ident) (history s) = history s"
      by (simp add: filter_id_conv)
    then show ?thesis by (simp add: handleDelete_def)
  qed
  have gone: "\<forall>e\<in>set (history (handleDelete ident s)). id_entry e \<noteq> ident"
    by (simp add: handleDelete_def)
  from rest frame gone size one same show ?thesis by blast
qed

theorem handleDelete_removes_the_id_witness:
  "history (handleDelete (id_entry entry_now) (sample_state\<lparr>history := [entry_now, entry_10_days]\<rparr>))
     = [entry_10_days]
   \<and> length (history (handleDelete (id_entry entry_now)
        (sample_state\<lparr>history := [entry_now, entry_10_days]\<rparr>))) = 2 - 1
   \<and> handleDelete ''x'' (sample_state\<lparr>history := [entry_now, entry_10_days]\<rparr>)
       = sample_state\<lparr>history := [entry_now, entry_10_days]\<rparr>"
proof -
  have ids: "map id_entry [entry_now, entry_10_days]
      = [''2024-03-01T00:00:00.000Z-k3j9x1'', ''2024-02-20T00:00:00.000Z-a8c2zz'']"
    by (simp add: entry_now_def entry_10_days_def)
  have "history (handleDelete (id_entry entry_now)
      (sample_state\<lparr>history := [entry_now, entry_10_days]\<rparr>)) = [entry_10_days]"
    using handleDelete_removes_the_id [of "id_entry entry_now"
        "sample_state\<lparr>history := [entry_now, entry_10_days]\<rparr>", THEN conjunct1]
    by (simp add: entry_now_def entry_10_days_def)
  moreover have "length (history (handleDelete (id_entry entry_now)
        (sample_state\<lparr>history := [entry_now, entry_10_days]\<rparr>))) = 2 - 1"
    using handleDelete_removes_the_id [of "id_entry entry_now"
        "sample_state\<lparr>history := [entry_now, entry_10_days]\<rparr>"] ids
    by (simp add: entry_now_def)
  moreover have "handleDelete ''x'' (sample_state\<lparr>history := [entry_now, entry_10_days]\<rparr>)
       = sample_state\<lparr>history := [entry_now, entry_10_days]\<rparr>"
    using handleDelete_removes_the_id [of "''x''"
        "sample_state\<lparr>history := [entry_now, entry_10_days]\<rparr>"] ids
    by simp
  ultimately show ?thesis by blast
qed

lemma distinct_ids_array_sort:
  "distinct (map id_entry (array_sort cmp xs)) = distinct (map id_entry xs)"
proof -
  have "mset (map id_entry (array_sort cmp xs)) = mset (map id_entry xs)"
    by (simp add: mset_array_sort)
  then show ?thesis by (rule mset_eq_imp_distinct_iff)
qed

lemma distinct_ids_prune_sort:
  assumes "distinct (map id_entry xs)"
  shows "distinct (map id_entry (sortByNewest parseDate (pruneOldPasswords parseDate now xs)))"
  using assms
  by (simp add: sortByNewest_def distinct_ids_array_sort pruneOldPasswords_def distinct_map_filter)

lemma handleGenerate_keeps_history:
  assumes "\<not> (useUppercase s \<or> useLowercase s \<or> useNumbers s \<or> useSymbols s)"
  shows "history (handleGenerate parseDate draws nowIso suffix now s) = history s"
  using assms by (simp add: handleGenerate_def generatePassword_def)

lemma dispatch_keeps_distinct:
  assumes "distinct (map id_entry (history s))"
    and "case ev of
           Generate draws nowIso suffix now \<Rightarrow> nowIso @ ''-'' @ suffix \<notin> id_entry ` set (history s)
         | _ \<Rightarrow> True"
  shows "distinct (map id_entry (history (dispatch parseDate toNumber ev s)))"
proof (cases ev)
  case (Generate draws nowIso suffix now)
  show ?thesis
  proof (cases "useUppercase s \<or> useLowercase s \<or> useNumbers s \<or> useSymbols s")
    case True
    from handleGenerate_history [OF True, of draws parseDate nowIso suffix now]
    obtain pwd where h: "history (handleGenerate parseDate draws nowIso suffix now s)
        = sortByNewest parseDate (pruneOldPasswords parseDate now
            (\<lparr>id_entry = nowIso @ ''-'' @ suffix, value_entry = pwd, createdAt = nowIso\<rparr>
               # history s))"
      by blast
    have "distinct (map id_entry
        (\<lparr>id_entry = nowIso @ ''-'' @ suffix, value_entry = pwd, createdAt = nowIso\<rparr> # history s))"
      using assms Generate by simp
    then show ?thesis
      unfolding Generate dispatch.simps h by (rule distinct_ids_prune_sort)
  next
    case False
    with assms(1) Generate show ?thesis by (simp add: handleGenerate_keeps_history)
  qed
next
  case (Delete ident)
  with assms(1) show ?thesis by (simp add: handleDelete_def distinct_map_filter)
next
  case (LengthChange typed)
  with assms(1) show ?thesis
    by (cases "toNumber typed") (simp_all add: handleLengthChange_def)
qed (use assms(1) in simp_all)

text \<open>
  C8, the claim as stated fails. When the host gives two generate events the same
  timestamp and the same suffix, the history holds two entries (here with different
  passwords) under one id.
\<close>

theorem repeated_id_is_reachable:
  "map id_entry (history sample_twice)
     = [''2024-03-01T00:00:00.000Z-k3j9x1'', ''2024-03-01T00:00:00.000Z-k3j9x1'']
   \<and> map value_entry (history sample_twice) = [''ABCDEFGH'', ''HHHHHHHH'']
   \<and> \<not> distinct (map id_entry (history sample_twice))"
  by code_simp

text \<open>
  C8, amended. The ids of the history are pairwise distinct after any sequence of events
  (generate, delete, option changes) provided they are so in the state the sequence starts
  from and every id that a generate event makes, timestamp, dash and suffix, is not an id
  of the history at that moment; and they are so in the first state when the collection
  parsed from storage has pairwise distinct ids. The code tests neither condition.
\<close>

theorem ids_stay_distinct:
  shows "(distinct (map id_entry (history s)) \<and> ids_fresh parseDate toNumber evs s
            \<longrightarrow> distinct (map id_entry (history (run parseDate toNumber evs s))))
       \<and> ((\<forall>raw parsed. store STORAGE_KEY = Some raw \<and> parseJSON raw = Some parsed
                \<longrightarrow> distinct (map id_entry parsed))
            \<longrightarrow> distinct (map id_entry
                  (history (initial_state hasWindow parseJSON parseDate now store))))"
proof (intro conjI impI)
  assume "distinct (map id_entry (history s)) \<and> ids_fresh parseDate toNumber evs s"
  then show "distinct (map id_entry (history (run parseDate toNumber evs s)))"
  proof (induction evs arbitrary: s)
    case Nil
    then show ?case by simp
  next
    case (Cons ev evs)
    then have "distinct (map id_entry (history (dispatch parseDate toNumber ev s)))"
      using dispatch_keeps_distinct [of s ev parseDate toNumber] by simp
    with Cons show ?case by simp
  qed
next
  assume stored: "\<forall>raw parsed. store STORAGE_KEY = Some raw \<and> parseJSON raw = Some parsed
      \<longrightarrow> distinct (map id_entry parsed)"
  have "distinct (map id_entry (loadHistory parseJSON parseDate now store))"
  proof (cases "store STORAGE_KEY")
    case None
    then show ?thesis by (simp add: loadHistory_def)
  next
    case (Some raw)
    show ?thesis
    proof (cases "parseJSON raw")
      case None
      with Some show ?thesis by (simp add: loadHistory_def)
    next
      case (Some parsed)
      with \<open>store STORAGE_KEY = Some raw\<close> stored have "distinct (map id_entry parsed)" by blast
      then have "distinct (map id_entry (sortByNewest parseDate (pruneOldPasswords parseDate now parsed)))"
        by (rule distinct_ids_prune_sort)
      with Some \<open>store STORAGE_KEY = Some raw\<close> show ?thesis by (simp add: loadHistory_def)
    qed
  qed
  then show "distinct (map id_entry (history (initial_state hasWindow parseJSON parseDate now store)))"
    by (simp add: initial_state_def)
qed

theorem ids_stay_distinct_witness:
  "distinct (map id_entry (history
      (run sample_parseDate (\<lambda>typed. NaN)
         [Generate (\<lambda>i. Crypto 7) ''2024-02-20T00:00:00.000Z'' ''a8c2zz'' sample_now,
          Generate (\<lambda>i. Crypto 7) ''2024-03-01T00:00:00.000Z'' ''k3j9x1'' sample_now,
          Delete ''2024-02-20T00:00:00.000Z-a8c2zz'']
         sample_state)))
   \<and> distinct (map id_entry (history
        (initial_state True sample_parseJSON sample_parseDate sample_now
           [STORAGE_KEY \<mapsto> sample_json])))"
proof -
  have fresh: "ids_fresh sample_parseDate (\<lambda>typed. NaN)
         [Generate (\<lambda>i. Crypto 7) ''2024-02-20T00:00:00.000Z'' ''a8c2zz'' sample_now,
          Generate (\<lambda>i. Crypto 7) ''2024-03-01T00:00:00.000Z'' ''k3j9x1'' sample_now,
          Delete ''2024-02-20T00:00:00.000Z-a8c2zz'']
         sample_state"
    by code_simp
  have start: "distinct (map id_entry (history sample_state))"
    by (simp add: sample_state_def)
  have stored: "\<forall>raw parsed. [STORAGE_KEY \<mapsto> sample_json] STORAGE_KEY = Some raw
      \<and> sample_parseJSON raw = Some parsed \<longrightarrow> distinct (map id_entry parsed)"
    by (simp add: sample_parseJSON_def entry_now_def entry_10_days_def)
  note general = ids_stay_distinct [where parseDate = sample_parseDate and now = sample_now
      and toNumber = "\<lambda>typed. NaN" and s = sample_state and hasWindow = True
      and parseJSON = sample_parseJSON and store = "[STORAGE_KEY \<mapsto> sample_json]"
      and evs = "[Generate (\<lambda>i. Crypto 7) ''2024-02-20T00:00:00.000Z'' ''a8c2zz'' sample_now,
          Generate (\<lambda>i. Crypto 7) ''2024-03-01T00:00:00.000Z'' ''k3j9x1'' sample_now,
          Delete ''2024-02-20T00:00:00.000Z-a8c2zz'']"]
  from general fresh start stored show ?thesis by blast
qed

end
